theory Spec2Isabelle
  imports
    Main
    "HOL-Library.Char_ord"
    "HOL-Library.List_Lexorder"
    "HOL-Library.AList"
    "HOL-Library.Sublist"
    "HOL-Library.Word"
begin

section \<open>inidb: an ini file used as a database (src/inidb/inidb.go)\<close>

subsection \<open>The ini tables\<close>

text \<open>
  The go-ini types \<^verbatim>\<open>Section = map[string]string\<close> and \<^verbatim>\<open>File = map[string]Section\<close>
  are association lists: \<open>map_of\<close> is the lookup, and the order of a list is the order in
  which a \<^verbatim>\<open>range\<close> statement visits the map when \<open>Save\<close> writes it out.
\<close>

type_synonym ini_section = "(string \<times> string) list"
type_synonym ini_file = "(string \<times> ini_section) list"

datatype inidb_error =
  ErrNotFound
  | ErrCreated
  | ErrStat
  | ErrOpen
  | ErrCreateTemp
  | ErrRenameOriginal
  | ErrRenameNew

record INIDB =
  filename :: string
  depth :: int
  dirty :: bool
  created :: bool
  tables :: ini_file

text \<open>\<^verbatim>\<open>File.Section(name)\<close> of go-ini returns the named section and creates it when absent.\<close>

definition Section :: "ini_file \<Rightarrow> string \<Rightarrow> ini_file" where
  "Section f name = (case map_of f name of None \<Rightarrow> f @ [(name, [])] | Some s \<Rightarrow> f)"

definition Get :: "INIDB \<Rightarrow> string \<Rightarrow> string \<Rightarrow> inidb_error + string" where
  "Get i table key =
     (case map_of (tables i) table of
        None \<Rightarrow> Inl ErrNotFound
      | Some s \<Rightarrow> (case map_of s key of None \<Rightarrow> Inl ErrNotFound | Some v \<Rightarrow> Inr v))"

text \<open>
  The mutating operations return the error (\<open>None\<close> is Go's \<^verbatim>\<open>nil\<close>) together with the
  database as the call leaves it.
\<close>

definition Set :: "INIDB \<Rightarrow> string \<Rightarrow> string \<Rightarrow> string \<Rightarrow> inidb_error option \<times> INIDB" where
  "Set i table key v =
     (case map_of (tables i) table of
        None \<Rightarrow> (Some ErrNotFound, i)
      | Some s \<Rightarrow>
          (None, i\<lparr>tables := AList.update table (AList.update key v s) (tables i),
                   dirty := True\<rparr>))"

definition Del :: "INIDB \<Rightarrow> string \<Rightarrow> string \<Rightarrow> inidb_error option \<times> INIDB" where
  "Del i table key =
     (case map_of (tables i) table of
        None \<Rightarrow> (Some ErrNotFound, i)
      | Some s \<Rightarrow>
          (None, i\<lparr>tables := AList.update table (AList.delete key s) (tables i),
                   dirty := True\<rparr>))"

definition NewTable :: "INIDB \<Rightarrow> string \<Rightarrow> INIDB" where
  "NewTable i table = i\<lparr>tables := Section (tables i) table\<rparr>"

definition DelTable :: "INIDB \<Rightarrow> string \<Rightarrow> inidb_error option \<times> INIDB" where
  "DelTable i table =
     (case map_of (tables i) table of
        None \<Rightarrow> (Some ErrNotFound, i)
      | Some s \<Rightarrow> (None, i\<lparr>tables := AList.delete table (tables i), dirty := True\<rparr>))"

definition Records :: "INIDB \<Rightarrow> string \<Rightarrow> ini_section" where
  "Records i table = (case map_of (tables i) table of None \<Rightarrow> [] | Some s \<Rightarrow> s)"

definition Tables :: "INIDB \<Rightarrow> string list" where
  "Tables i = map fst (tables i)"

subsection \<open>The directory of the database\<close>

text \<open>
  The package keeps one database per directory, so the file system is the directory
  \<^verbatim>\<open>filepath.Dir(filename)\<close>, and \<open>filename\<close> is the name of the database file in it. An
  entry of the directory is a regular file with its contents or a sub-directory
  (\<open>Directory True\<close> when it has entries of its own, \<open>Directory False\<close> when empty); \<open>locked\<close> says that the system does not let the process
  unlink or replace the entry (a file of another owner in a sticky directory, an
  immutable file). The calls of package \<^verbatim>\<open>os\<close> follow their documentation and the Unix
  implementation; \<open>None\<close> is a returned error.
\<close>

datatype kind = File string | Directory bool

record entry =
  kind :: kind
  locked :: bool

type_synonym dir = "(string \<times> entry) list"

definition plain_file :: "string \<Rightarrow> entry" where
  "plain_file c = \<lparr>kind = File c, locked = False\<rparr>"

text \<open>
  \<^verbatim>\<open>os.Rename\<close> refuses a new name that is an existing directory, then renames as the
  system call does: the old entry must exist and not be locked, a file of the new name is
  replaced unless it is locked, and a directory does not replace a file.
\<close>

definition Rename :: "string \<Rightarrow> string \<Rightarrow> dir \<Rightarrow> dir option" where
  "Rename old new d =
     (case map_of d old of
        None \<Rightarrow> None
      | Some e \<Rightarrow>
          (case map_of d new of
             None \<Rightarrow> if locked e then None else Some (AList.update new e (AList.delete old d))
           | Some e' \<Rightarrow>
               (case kind e' of
                  Directory b \<Rightarrow> None
                | File c \<Rightarrow>
                    if old = new then Some d
                    else if locked e \<or> locked e' then None
                    else (case kind e of
                            Directory b \<Rightarrow> None
                          | File c0 \<Rightarrow> Some (AList.update new e (AList.delete old d))))))"

text \<open>
  \<^verbatim>\<open>os.Remove\<close> removes a file or an empty directory; it fails on a name that does not
  exist, on a directory that has entries and on a locked entry.
\<close>

definition removable :: "entry \<Rightarrow> bool" where
  "removable e = (\<not> locked e \<and> kind e \<noteq> Directory True)"

definition Remove :: "string \<Rightarrow> dir \<Rightarrow> dir option" where
  "Remove name d =
     (case map_of d name of
        None \<Rightarrow> None
      | Some e \<Rightarrow> if removable e then Some (AList.delete name d) else None)"

text \<open>\<^verbatim>\<open>os.ReadDir\<close> returns the entries sorted by name.\<close>

definition ReadDir :: "dir \<Rightarrow> string list" where
  "ReadDir d = sort (remdups (map fst d))"

text \<open>
  \<^verbatim>\<open>os.CreateTemp(dir, pattern)\<close> puts a random decimal number at the end of the pattern, or
  in place of its last \<^verbatim>\<open>*\<close>, and creates the first such name that is free, giving up
  after 10000 names. \<open>rnds\<close> are the numbers drawn.
\<close>

fun digit_char :: "nat \<Rightarrow> char" where
  "digit_char d = char_of (48 + d)"

fun itoa :: "nat \<Rightarrow> string" where
  "itoa n = (if n < 10 then [digit_char n] else itoa (n div 10) @ [digit_char (n mod 10)])"

declare itoa.simps [simp del]

definition prefixAndSuffix :: "string \<Rightarrow> string \<times> string" where
  "prefixAndSuffix pattern =
     (if CHR ''*'' \<in> set pattern
      then (rev (tl (dropWhile (\<lambda>c. c \<noteq> CHR ''*'') (rev pattern))),
            rev (takeWhile (\<lambda>c. c \<noteq> CHR ''*'') (rev pattern)))
      else (pattern, []))"

fun create_first :: "dir \<Rightarrow> string \<Rightarrow> string \<Rightarrow> nat list \<Rightarrow> (string \<times> dir) option" where
  "create_first d pre suf [] = None"
| "create_first d pre suf (r # rs) =
     (let name = pre @ itoa r @ suf in
      case map_of d name of
        None \<Rightarrow> Some (name, d @ [(name, plain_file [])])
      | Some c \<Rightarrow> create_first d pre suf rs)"

definition CreateTemp :: "dir \<Rightarrow> string \<Rightarrow> nat list \<Rightarrow> (string \<times> dir) option" where
  "CreateTemp d pattern rnds =
     (case prefixAndSuffix pattern of (pre, suf) \<Rightarrow> create_first d pre suf (take 10000 rnds))"

subsection \<open>Save and prune\<close>

definition auto :: string where
  "auto = ''# This file is autogenerated, DO NOT EDIT!''"

definition write_records :: "ini_section \<Rightarrow> string" where
  "write_records tv = concat (map (\<lambda>(rk, rv). rk @ '' = '' @ rv @ ''\<newline>'') tv)"

definition write_tables :: "ini_file \<Rightarrow> string" where
  "write_tables ts =
     auto @ ''\<newline>'' @
     concat (map (\<lambda>(tk, tv).
       (if tk \<noteq> [] then ''['' @ tk @ '']\<newline>'' else []) @ write_records tv @ ''\<newline>'') ts)"

text \<open>\<open>prune\<close> removes the oldest entries named after the database file, keeping \<open>depth\<close>.\<close>

definition remove_ignoring :: "string \<Rightarrow> dir \<Rightarrow> dir" where
  "remove_ignoring v d = (case Remove v d of None \<Rightarrow> d | Some d' \<Rightarrow> d')"

text \<open>\<open>os.Remove\<close> would remove the entry of this name.\<close>

definition can_remove :: "dir \<Rightarrow> string \<Rightarrow> bool" where
  "can_remove d n = (\<exists>e. map_of d n = Some e \<and> removable e)"

definition prune_list :: "INIDB \<Rightarrow> dir \<Rightarrow> string list" where
  "prune_list i d = filter (prefix (filename i @ ''.'')) (ReadDir d)"

definition prune :: "INIDB \<Rightarrow> dir \<Rightarrow> inidb_error option \<times> dir" where
  "prune i d =
     (if depth i < 0 then (None, d)
      else
        let pl = prune_list i d in
        if int (length pl) - depth i < 0 then (None, d)
        else (None, fold remove_ignoring (take (nat (int (length pl) - depth i)) pl) d))"

text \<open>\<open>now\<close> is the time of the call in the layout \<^verbatim>\<open>20060102.150405.000000000\<close>.\<close>

definition backup_name :: "INIDB \<Rightarrow> string \<Rightarrow> string" where
  "backup_name i now = filename i @ ''.'' @ now"

text \<open>
  \<open>flush\<close> is \<open>Save\<close> up to the second rename: the temporary file is written, the
  original is renamed to its backup unless the database was created, and the temporary
  file takes the original's name.
\<close>

definition flush :: "INIDB \<Rightarrow> dir \<Rightarrow> nat list \<Rightarrow> string \<Rightarrow> inidb_error option \<times> dir" where
  "flush i d rnds now =
     (case CreateTemp d (filename i) rnds of
        None \<Rightarrow> (Some ErrCreateTemp, d)
      | Some (f, d1) \<Rightarrow>
          let d2 = AList.update f (plain_file (write_tables (tables i))) d1 in
          (case (if \<not> created i then Rename (filename i) (backup_name i now) d2 else Some d2) of
             None \<Rightarrow> (Some ErrRenameOriginal, d2)
           | Some d3 \<Rightarrow>
               (case Rename f (filename i) d3 of
                  None \<Rightarrow> (Some ErrRenameNew, d3)
                | Some d4 \<Rightarrow> (None, d4))))"

definition Save :: "INIDB \<Rightarrow> dir \<Rightarrow> nat list \<Rightarrow> string \<Rightarrow> inidb_error option \<times> INIDB \<times> dir" where
  "Save i d rnds now =
     (if \<not> dirty i then (None, i, d)
      else
        case flush i d rnds now of
          (Some e, d') \<Rightarrow> (Some e, i, d')
        | (None, d4) \<Rightarrow>
            let i' = i\<lparr>dirty := False\<rparr> in
            (fst (prune i' d4), i', snd (prune i' d4)))"

text \<open>
  \<open>New\<close> opens the database. \<open>D\<close> is the directory, \<open>None\<close> when it does not exist yet,
  and \<open>parse\<close> stands for the reader of go-ini (\<open>None\<close> for a file it rejects); a
  directory of the file's name cannot be read. The result is the database, the error and
  the directory.
\<close>

definition New ::
  "(string \<Rightarrow> ini_file option) \<Rightarrow> string \<Rightarrow> bool \<Rightarrow> int \<Rightarrow> dir option \<Rightarrow> nat list \<Rightarrow> string
     \<Rightarrow> INIDB option \<times> inidb_error option \<times> dir option" where
  "New parse fname create dpth D rnds now =
     (if D = None \<and> \<not> create then (None, Some ErrStat, D)
      else
        let d = (case D of None \<Rightarrow> [] | Some d0 \<Rightarrow> d0) in
        case map_of d fname of
          None \<Rightarrow>
            if create then
              let i = \<lparr>filename = fname, depth = dpth, dirty = True, created = True,
                       tables = Section [] []\<rparr> in
              (case Save i d rnds now of
                 (Some e2, i', d') \<Rightarrow> (None, Some e2, Some d')
               | (None, i', d') \<Rightarrow> (Some i', Some ErrCreated, Some d'))
            else (None, Some ErrOpen, Some d)
        | Some e \<Rightarrow>
            (case kind e of
               Directory b \<Rightarrow> (None, Some ErrOpen, Some d)
             | File c \<Rightarrow>
                 (case parse c of
                    None \<Rightarrow> (None, Some ErrOpen, Some d)
                  | Some ts \<Rightarrow>
                      (Some \<lparr>filename = fname, depth = dpth, dirty = False, created = False,
                             tables = Section ts []\<rparr>, None, Some d))))"

section \<open>Chat messages and chat windows (src/unnamed/part_003)\<close>

subsection \<open>Splitting a line into elements\<close>

text \<open>
  \<open>chatMsgEl\<close> is one element of a chat message: text, or an embed, a mention or a URL
  (Go's \<^verbatim>\<open>nil\<close> pointer is \<open>None\<close>). \<open>'e\<close> is the type \<^verbatim>\<open>embeddedArgs\<close>. A line is the
  list of its elements in order.
\<close>

record 'e chatMsgEl =
  text' :: string
  embed :: "'e option"
  mention :: "string option"
  url :: "string option"

type_synonym 'e chatMsgElLine = "'e chatMsgEl list"

text \<open>
  The regular expressions are those of Go's package \<^verbatim>\<open>regexp\<close>: \<open>Compile\<close> is
  \<^verbatim>\<open>regexp.Compile\<close> (\<open>None\<close> when the pattern is rejected) and a compiled expression is
  its \<^verbatim>\<open>FindAllStringIndex(s, -1)\<close>, the list of the matches \<open>(start, end)\<close> as offsets
  into \<open>s\<close>. \<open>urlRegexp\<close> and \<open>embedRegexp\<close> are the two package-level expressions and
  \<open>parseEmbedArgs\<close> reads the arguments of an embed.
\<close>

record 'e regexps =
  Compile :: "string \<Rightarrow> (string \<Rightarrow> (nat \<times> nat) list) option"
  urlRegexp :: "string \<Rightarrow> (nat \<times> nat) list"
  embedRegexp :: "string \<Rightarrow> (nat \<times> nat) list"
  parseEmbedArgs :: "string \<Rightarrow> 'e"

text \<open>The slice \<^verbatim>\<open>s[lo:hi]\<close>; Go panics when the bounds are out of order or range.\<close>

definition slice :: "string \<Rightarrow> nat \<Rightarrow> nat \<Rightarrow> string option" where
  "slice s lo hi = (if lo \<le> hi \<and> hi \<le> length s then Some (take (hi - lo) (drop lo s)) else None)"

definition text_el :: "string \<Rightarrow> 'e chatMsgEl" where
  "text_el s = \<lparr>text' = s, embed = None, mention = None, url = None\<rparr>"

definition mention_el :: "string \<Rightarrow> 'e chatMsgEl" where
  "mention_el m = \<lparr>text' = [], embed = None, mention = Some m, url = None\<rparr>"

definition url_el :: "string \<Rightarrow> 'e chatMsgEl" where
  "url_el u = \<lparr>text' = [], embed = None, mention = None, url = Some u\<rparr>"

definition embed_el :: "'e \<Rightarrow> 'e chatMsgEl" where
  "embed_el args = \<lparr>text' = [], embed = Some args, mention = None, url = None\<rparr>"

text \<open>
  The three passes share one loop. For each match, \<open>split_positions\<close> inserts the text
  before it and the element \<open>mk\<close> makes of it, and returns the inserted elements with the
  last value of \<^verbatim>\<open>lastEnd\<close>; \<open>None\<close> is a panic in a slice.
\<close>

fun split_positions ::
  "(string \<Rightarrow> 'e chatMsgEl) \<Rightarrow> string \<Rightarrow> nat \<Rightarrow> (nat \<times> nat) list \<Rightarrow> ('e chatMsgEl list \<times> nat) option" where
  "split_positions mk s lastEnd [] = Some ([], lastEnd)"
| "split_positions mk s lastEnd (pos # positions) =
     (case slice s lastEnd (fst pos) of
        None \<Rightarrow> None
      | Some pre \<Rightarrow>
          (case slice s (fst pos) (snd pos) of
             None \<Rightarrow> None
           | Some m \<Rightarrow>
               (case split_positions mk s (snd pos) positions of
                  None \<Rightarrow> None
                | Some (els, e) \<Rightarrow> Some (text_el pre # mk m # els, e))))"

text \<open>
  One step of the loop over the line, at element \<open>el\<close>: the elements that stand in its
  place afterwards. An element with no text, or with no match, stays.
\<close>

definition split_el ::
  "(string \<Rightarrow> (nat \<times> nat) list) \<Rightarrow> (string \<Rightarrow> 'e chatMsgEl) \<Rightarrow> 'e chatMsgEl \<Rightarrow> 'e chatMsgEl list option" where
  "split_el re mk el =
     (let s = text' el in
      if s = [] then Some [el]
      else
        let positions = re s in
        if length positions = 0 then Some [el]
        else
          (case split_positions mk s 0 positions of
             None \<Rightarrow> None
           | Some (els, lastEnd) \<Rightarrow>
               (case slice s lastEnd (length s) of
                  None \<Rightarrow> None
                | Some rest \<Rightarrow> Some (els @ [text_el rest]))))"

text \<open>
  The loop goes on from the element after the suffix, so the inserted elements are not
  visited again.
\<close>

fun split_line ::
  "(string \<Rightarrow> (nat \<times> nat) list) \<Rightarrow> (string \<Rightarrow> 'e chatMsgEl) \<Rightarrow> 'e chatMsgElLine \<Rightarrow> 'e chatMsgElLine option" where
  "split_line re mk [] = Some []"
| "split_line re mk (el # l) =
     (case split_el re mk el of
        None \<Rightarrow> None
      | Some els \<Rightarrow> (case split_line re mk l of None \<Rightarrow> None | Some l' \<Rightarrow> Some (els @ l')))"

definition word_boundary :: string where
  "word_boundary = [CHR 0x5C, CHR ''b'']"

definition splitMentions :: "'e regexps \<Rightarrow> 'e chatMsgElLine \<Rightarrow> string \<Rightarrow> 'e chatMsgElLine option" where
  "splitMentions env l mention' =
     (case Compile env (word_boundary @ mention' @ word_boundary) of
        None \<Rightarrow> Some l
      | Some re \<Rightarrow> split_line re mention_el l)"

definition splitEmbeds :: "'e regexps \<Rightarrow> 'e chatMsgElLine \<Rightarrow> 'e chatMsgElLine option" where
  "splitEmbeds env l = split_line (embedRegexp env) (\<lambda>m. embed_el (parseEmbedArgs env m)) l"

definition splitURLs :: "'e regexps \<Rightarrow> 'e chatMsgElLine \<Rightarrow> 'e chatMsgElLine option" where
  "splitURLs env l = split_line (urlRegexp env) url_el l"

definition parseLine :: "'e regexps \<Rightarrow> 'e chatMsgElLine \<Rightarrow> string \<Rightarrow> string \<Rightarrow> 'e chatMsgElLine option" where
  "parseLine env l line mention' =
     (case splitEmbeds env (l @ [text_el line]) of
        None \<Rightarrow> None
      | Some l1 \<Rightarrow>
          (case splitURLs env l1 of
             None \<Rightarrow> None
           | Some l2 \<Rightarrow> if mention' \<noteq> [] then splitMentions env l2 mention' else Some l2))"

definition parseMsgLine :: "'e regexps \<Rightarrow> string \<Rightarrow> string \<Rightarrow> 'e chatMsgElLine option" where
  "parseMsgLine env line mention' = parseLine env [] line mention'"

text \<open>\<^verbatim>\<open>strings.Split(msg, "\n")\<close>.\<close>

fun split_newline :: "string \<Rightarrow> string list" where
  "split_newline [] = [[]]"
| "split_newline (c # cs) =
     (if c = CHR 0x0A then [] # split_newline cs
      else (case split_newline cs of [] \<Rightarrow> [[c]] | line # lines \<Rightarrow> (c # line) # lines))"

fun parse_lines :: "'e regexps \<Rightarrow> string list \<Rightarrow> string \<Rightarrow> 'e chatMsgElLine list option" where
  "parse_lines env [] mention' = Some []"
| "parse_lines env (line # lines) mention' =
     (case parseMsgLine env line mention' of
        None \<Rightarrow> None
      | Some l \<Rightarrow>
          (case parse_lines env lines mention' of None \<Rightarrow> None | Some res \<Rightarrow> Some (l # res)))"

definition parseMsgIntoElements :: "'e regexps \<Rightarrow> string \<Rightarrow> string \<Rightarrow> 'e chatMsgElLine list option" where
  "parseMsgIntoElements env msg' mention' = parse_lines env (split_newline msg') mention'"

text \<open>
  What \<^verbatim>\<open>FindAllStringIndex\<close> returns for \<open>s\<close>: successive matches that do not overlap,
  each within \<open>s\<close>, the first starting at or after \<open>e\<close>.
\<close>

fun successive :: "string \<Rightarrow> nat \<Rightarrow> (nat \<times> nat) list \<Rightarrow> bool" where
  "successive s e [] = True"
| "successive s e (pos # positions) =
     (e \<le> fst pos \<and> fst pos \<le> snd pos \<and> snd pos \<le> length s \<and> successive s (snd pos) positions)"

definition matches_ok :: "(string \<Rightarrow> (nat \<times> nat) list) \<Rightarrow> bool" where
  "matches_ok re = (\<forall>s. successive s 0 (re s))"

definition regexps_ok :: "'e regexps \<Rightarrow> bool" where
  "regexps_ok env =
     (matches_ok (urlRegexp env) \<and> matches_ok (embedRegexp env) \<and>
      (\<forall>pat re. Compile env pat = Some re \<longrightarrow> matches_ok re))"

text \<open>The characters a line shows: the text, the mention and the URL of its elements.\<close>

definition el_content :: "'e chatMsgEl \<Rightarrow> string" where
  "el_content el =
     text' el @ (case mention el of None \<Rightarrow> [] | Some m \<Rightarrow> m) @ (case url el of None \<Rightarrow> [] | Some u \<Rightarrow> u)"

definition line_content :: "'e chatMsgElLine \<Rightarrow> string" where
  "line_content l = concat (map el_content l)"

text \<open>An element that has text has neither a mention nor a URL.\<close>

definition plain_text :: "'e chatMsgEl \<Rightarrow> bool" where
  "plain_text el = (text' el = [] \<or> (mention el = None \<and> url el = None))"

subsection \<open>The chat window\<close>

text \<open>\<^verbatim>\<open>rpc.PostMetadata\<close>, the message of the same name in clientrpc.proto.\<close>

record PostMetadata =
  version :: "64 word"
  attributes :: "(string \<times> string) list"

text \<open>Times are abstract instants; user IDs are their bytes.\<close>

record 'e chatMsg =
  ts :: nat
  sent :: bool
  msg :: string
  elements :: "'e chatMsgElLine list"
  mine :: bool
  internal :: bool
  help' :: bool
  from' :: string
  fromUID :: "string option"
  post :: "PostMetadata option"

text \<open>
  The fields of \<^verbatim>\<open>chatWindow\<close> that the operations below read or write, and those that
  name the window; the mutex and the selected embed's arguments are left out.
\<close>

record 'e chatWindow =
  uid :: string
  isGC :: bool
  msgs :: "'e chatMsg list"
  alias' :: string
  me :: string
  selEmbed :: int
  maxEmbeds :: int
  unreadIdx :: int

definition empty' :: "'e chatWindow \<Rightarrow> bool" where
  "empty' cw = (length (msgs cw) = 0)"

text \<open>\<open>appendMsg\<close> takes a pointer to the message: \<open>None\<close> is \<^verbatim>\<open>nil\<close>.\<close>

definition appendMsg :: "'e chatWindow \<Rightarrow> 'e chatMsg option \<Rightarrow> 'e chatWindow" where
  "appendMsg cw m =
     (case m of
        None \<Rightarrow> cw
      | Some msg' \<Rightarrow>
          let resetUnreadIdx =
                ((mine msg' \<or> internal msg' \<or> help' msg') \<and> unreadIdx cw = int (length (msgs cw)));
              cw1 = cw\<lparr>msgs := msgs cw @ [msg']\<rparr>
          in if resetUnreadIdx then cw1\<lparr>unreadIdx := int (length (msgs cw1))\<rparr> else cw1)"

text \<open>
  The operations that build a message parse its text first; \<open>None\<close> is a panic of the
  parse. \<open>now\<close> is the value of \<^verbatim>\<open>time.Now()\<close>. They return the window and the message.
\<close>

definition newUnsentPM ::
  "'e regexps \<Rightarrow> 'e chatWindow \<Rightarrow> string \<Rightarrow> nat \<Rightarrow> ('e chatWindow \<times> 'e chatMsg) option" where
  "newUnsentPM env cw msg' now =
     (case parseMsgIntoElements env msg' [] of
        None \<Rightarrow> None
      | Some els \<Rightarrow>
          let m = \<lparr>ts = now, sent = False, msg = [], elements = els, mine = True,
                   internal = False, help' = False, from' = me cw, fromUID = None, post = None\<rparr>
          in Some (appendMsg cw (Some m), m))"

definition newInternalMsg ::
  "'e regexps \<Rightarrow> 'e chatWindow \<Rightarrow> string \<Rightarrow> nat \<Rightarrow> ('e chatWindow \<times> 'e chatMsg) option" where
  "newInternalMsg env cw msg' now =
     (case parseMsgIntoElements env msg' [] of
        None \<Rightarrow> None
      | Some els \<Rightarrow>
          let m = \<lparr>ts = now, sent = False, msg = [], elements = els, mine = False,
                   internal = True, help' = False, from' = [], fromUID = None, post = None\<rparr>
          in Some (appendMsg cw (Some m), m))"

text \<open>
  \<open>manyHelpMsgs\<close> runs the callback \<open>f\<close> with a print function that appends one help
  message per call; \<open>prints\<close> are the calls \<open>f\<close> makes, each the formatted message and
  the time of the call.
\<close>

fun manyHelpMsgs :: "'e regexps \<Rightarrow> 'e chatWindow \<Rightarrow> (string \<times> nat) list \<Rightarrow> 'e chatWindow option" where
  "manyHelpMsgs env cw [] = Some cw"
| "manyHelpMsgs env cw (p # prints) =
     (case parseMsgIntoElements env (fst p) [] of
        None \<Rightarrow> None
      | Some els \<Rightarrow>
          let m = \<lparr>ts = snd p, sent = False, msg = [], elements = els, mine = False,
                   internal = False, help' = True, from' = [], fromUID = None, post = None\<rparr>
          in manyHelpMsgs env (cw\<lparr>msgs := msgs cw @ [m]\<rparr>) prints)"

definition newHelpMsg :: "'e regexps \<Rightarrow> 'e chatWindow \<Rightarrow> string \<Rightarrow> nat \<Rightarrow> 'e chatWindow option" where
  "newHelpMsg env cw f now = manyHelpMsgs env cw [(f, now)]"

definition newRecvdMsg ::
  "'e regexps \<Rightarrow> 'e chatWindow \<Rightarrow> string \<Rightarrow> string \<Rightarrow> string option \<Rightarrow> nat
     \<Rightarrow> ('e chatWindow \<times> 'e chatMsg) option" where
  "newRecvdMsg env cw from'' msg' fromUID' ts' =
     (case parseMsgIntoElements env msg' (me cw) of
        None \<Rightarrow> None
      | Some els \<Rightarrow>
          let m = \<lparr>ts = ts', sent = False, msg = [], elements = els, mine = False,
                   internal = False, help' = False, from' = from'', fromUID = fromUID', post = None\<rparr>
          in Some (appendMsg cw (Some m), m))"

definition markAllRead :: "'e chatWindow \<Rightarrow> 'e chatWindow" where
  "markAllRead cw = cw\<lparr>unreadIdx := int (length (msgs cw))\<rparr>"

definition unreadCount :: "'e chatWindow \<Rightarrow> int" where
  "unreadCount cw = int (length (msgs cw)) - unreadIdx cw"

text \<open>The calls a program makes on a window, and a run of them from a given window.\<close>

datatype 'e cw_call =
  AppendMsg "'e chatMsg option"
  | NewUnsentPM string nat
  | NewInternalMsg string nat
  | ManyHelpMsgs "(string \<times> nat) list"
  | NewRecvdMsg string string "string option" nat
  | MarkAllRead

fun call :: "'e regexps \<Rightarrow> 'e chatWindow \<Rightarrow> 'e cw_call \<Rightarrow> 'e chatWindow option" where
  "call env cw (AppendMsg m) = Some (appendMsg cw m)"
| "call env cw (NewUnsentPM msg' now) = map_option fst (newUnsentPM env cw msg' now)"
| "call env cw (NewInternalMsg msg' now) = map_option fst (newInternalMsg env cw msg' now)"
| "call env cw (ManyHelpMsgs prints) = manyHelpMsgs env cw prints"
| "call env cw (NewRecvdMsg from'' msg' fromUID' ts') =
     map_option fst (newRecvdMsg env cw from'' msg' fromUID' ts')"
| "call env cw MarkAllRead = Some (markAllRead cw)"

fun calls :: "'e regexps \<Rightarrow> 'e chatWindow \<Rightarrow> 'e cw_call list \<Rightarrow> 'e chatWindow option" where
  "calls env cw [] = Some cw"
| "calls env cw (c # cs) = (case call env cw c of None \<Rightarrow> None | Some cw' \<Rightarrow> calls env cw' cs)"

definition unread_in_range :: "'e chatWindow \<Rightarrow> bool" where
  "unread_in_range cw = (0 \<le> unreadIdx cw \<and> unreadIdx cw \<le> int (length (msgs cw)))"

subsection \<open>Examples\<close>

text \<open>
  What package \<^verbatim>\<open>regexp\<close> answers on the lines of the examples: the mention of
  \<^verbatim>\<open>bob\<close> in one line and the URL in another. Elsewhere this environment finds nothing.
\<close>

definition example_regexps :: "unit regexps" where
  "example_regexps =
     \<lparr>Compile = (\<lambda>pat. if pat = word_boundary @ ''bob'' @ word_boundary
                        then Some (\<lambda>s. if s = ''hi bob'' then [(3, 6)] else [])
                        else None),
      urlRegexp = (\<lambda>s. if s = ''see http://x now'' then [(4, 12)] else []),
      embedRegexp = (\<lambda>s. []),
      parseEmbedArgs = (\<lambda>s. ())\<rparr>"

text \<open>A window of the user \<^verbatim>\<open>bob\<close> with no message yet.\<close>

definition example_window :: "unit chatWindow" where
  "example_window =
     \<lparr>uid = ''alice-uid'', isGC = False, msgs = [], alias' = ''alice'', me = ''bob'',
      selEmbed = 0, maxEmbeds = 0, unreadIdx = 0\<rparr>"

section \<open>The client RPC interface (src/clientrpc/clientrpc.proto)\<close>

subsection \<open>Messages\<close>

text \<open>A message declaration is the list of its fields: name, type and number.\<close>

datatype proto_type = TString | TBytes | TInt64 | TUint64 | TDouble | TMessage string | TEnum string

record proto_field =
  field_name :: string
  field_type :: proto_type
  field_number :: nat

definition VersionResponse :: "proto_field list" where
  "VersionResponse =
     [\<lparr>field_name = ''app_version'', field_type = TString, field_number = 1\<rparr>,
      \<lparr>field_name = ''go_runtime'', field_type = TString, field_number = 2\<rparr>,
      \<lparr>field_name = ''app_name'', field_type = TString, field_number = 3\<rparr>]"

text \<open>The methods of \<^verbatim>\<open>VersionService\<close>: name, request and response.\<close>

definition VersionService :: "(string \<times> string \<times> string) list" where
  "VersionService =
     [(''Version'', ''VersionRequest'', ''VersionResponse''),
      (''KeepaliveStream'', ''KeepaliveStreamRequest'', ''KeepaliveEvent'')]"

datatype MessageMode = MESSAGE_MODE_NORMAL | MESSAGE_MODE_ME

record RMGroupMessage =
  gm_id :: "8 word list"
  gm_generation :: "64 word"
  gm_message :: string
  gm_mode :: MessageMode

record AckRequest =
  ack_sequence_id :: "64 word"

record KeepaliveStreamRequest =
  interval :: int

subsection \<open>The keepalive stream\<close>

text \<open>
  Modelled from the spec: the server of \<^verbatim>\<open>KeepaliveStream\<close> is not among the sources, only
  its request message. The spec has ``\<^verbatim>\<open>KeepaliveStream(interval_ms)\<close> streaming heartbeats
  (server clamps to \<open>\<ge>\<close> 1 s)'', and the comment of the request's field says that a minimum
  of 1 second is imposed regardless of the value passed. The interval is in milliseconds.
\<close>

definition keepalive_interval :: "KeepaliveStreamRequest \<Rightarrow> int" where
  "keepalive_interval req = max 1000 (interval req)"

text \<open>
  Modelled from the spec: the time (in milliseconds) of the \<open>k\<close>-th heartbeat of a stream
  opened at \<open>t0\<close>, heartbeats being one interval apart.
\<close>

definition heartbeat_time :: "KeepaliveStreamRequest \<Rightarrow> int \<Rightarrow> nat \<Rightarrow> int" where
  "heartbeat_time req t0 k = t0 + int k * keepalive_interval req"

subsection \<open>The generation gate of group chats\<close>

text \<open>
  Modelled from the spec: the GC controller is not among the sources, only the routed
  group message. The spec's GC metadata is ``GCID, admin UID, member list, generation
  counter'', and ``inbound GC messages are accepted only if their generation equals the
  receiver's current value; lower generations are dropped, higher generations trigger a
  metadata-fetch request''. The result says whether the message is accepted and whom a
  metadata fetch is requested from.
\<close>

record GCMetadata =
  gc_id :: "8 word list"
  gc_admin :: "8 word list"
  gc_members :: "8 word list list"
  gc_generation :: "64 word"

record gc_result =
  accepted :: bool
  metadata_fetch :: "8 word list option"

definition recv_gc_message :: "GCMetadata \<Rightarrow> RMGroupMessage \<Rightarrow> gc_result" where
  "recv_gc_message meta m =
     (if gm_generation m = gc_generation meta then \<lparr>accepted = True, metadata_fetch = None\<rparr>
      else if gm_generation m < gc_generation meta then \<lparr>accepted = False, metadata_fetch = None\<rparr>
      else \<lparr>accepted = False, metadata_fetch = Some (gc_admin meta)\<rparr>)"

subsection \<open>Acks of a consumer stream\<close>

text \<open>
  Modelled from the spec: local delivery is not among the sources, only the ack request.
  The spec's local delivery keeps per stream a record
  ``stream, sequence_id, payload_ref, acked=false'' for each event, assigns the next
  sequence ID to a new event, and ``on consumer-provided ack for sequence_id, marks all
  records up to that ID acked; a compactor periodically drops acked records''. The acked
  sequence ID is durably recorded: \<open>acked_upto\<close> is that high-water mark.
\<close>

record 'p stream_record =
  sequence_id :: "64 word"
  payload_ref :: 'p
  acked :: bool

record 'p stream_state =
  last_seq :: "64 word"
  acked_upto :: "64 word"
  pending :: "'p stream_record list"

definition new_stream :: "'p stream_state" where
  "new_stream = \<lparr>last_seq = 0, acked_upto = 0, pending = []\<rparr>"

definition emit :: "'p \<Rightarrow> 'p stream_state \<Rightarrow> 'p stream_state" where
  "emit p st =
     st\<lparr>last_seq := last_seq st + 1,
        pending := pending st @ [\<lparr>sequence_id = last_seq st + 1, payload_ref = p, acked = False\<rparr>]\<rparr>"

definition ack :: "AckRequest \<Rightarrow> 'p stream_state \<Rightarrow> 'p stream_state" where
  "ack req st =
     st\<lparr>acked_upto := max (acked_upto st) (ack_sequence_id req),
        pending := map (\<lambda>r. if sequence_id r \<le> ack_sequence_id req then r\<lparr>acked := True\<rparr> else r)
                     (pending st)\<rparr>"

definition compact :: "'p stream_state \<Rightarrow> 'p stream_state" where
  "compact st = st\<lparr>pending := filter (\<lambda>r. \<not> acked r) (pending st)\<rparr>"

text \<open>The high-water mark is what it says: every record up to it is marked acked.\<close>

definition marked_upto :: "'p stream_state \<Rightarrow> bool" where
  "marked_upto st = list_all (\<lambda>r. sequence_id r \<le> acked_upto st \<longrightarrow> acked r) (pending st)"

section \<open>Properties of inidb\<close>

text \<open>
  C8: for a table name that the database does not have, \<open>Set\<close>, \<open>Del\<close> and \<open>DelTable\<close>
  return \<open>ErrNotFound\<close> and leave the database as it was: the tables, their records and
  the dirty flag are those of before the call.
\<close>

theorem absent_table_ErrNotFound:
  assumes "t \<notin> set (Tables i)"
  shows "Set i t key v = (Some ErrNotFound, i) \<and> Del i t key = (Some ErrNotFound, i) \<and>
         DelTable i t = (Some ErrNotFound, i)"
proof -
  from assms have "map_of (tables i) t = None"
    by (simp add: Tables_def map_of_eq_None_iff)
  then show ?thesis
    by (simp add: Set_def Del_def DelTable_def)
qed

theorem absent_table_ErrNotFound_witness:
  "''peers'' \<notin> set (Tables \<lparr>filename = ''config'', depth = 1, dirty = False, created = False,
                               tables = [([], [(''nick'', ''bob'')])]\<rparr>) \<and>
   Set \<lparr>filename = ''config'', depth = 1, dirty = False, created = False,
        tables = [([], [(''nick'', ''bob'')])]\<rparr> ''peers'' ''k'' ''v''
     = (Some ErrNotFound, \<lparr>filename = ''config'', depth = 1, dirty = False, created = False,
                           tables = [([], [(''nick'', ''bob'')])]\<rparr>) \<and>
   Del \<lparr>filename = ''config'', depth = 1, dirty = False, created = False,
        tables = [([], [(''nick'', ''bob'')])]\<rparr> ''peers'' ''k''
     = (Some ErrNotFound, \<lparr>filename = ''config'', depth = 1, dirty = False, created = False,
                           tables = [([], [(''nick'', ''bob'')])]\<rparr>) \<and>
   DelTable \<lparr>filename = ''config'', depth = 1, dirty = False, created = False,
        tables = [([], [(''nick'', ''bob'')])]\<rparr> ''peers''
     = (Some ErrNotFound, \<lparr>filename = ''config'', depth = 1, dirty = False, created = False,
                           tables = [([], [(''nick'', ''bob'')])]\<rparr>)"
proof -
  have absent: "''peers'' \<notin> set (Tables \<lparr>filename = ''config'', depth = 1, dirty = False,
      created = False, tables = [([], [(''nick'', ''bob'')])]\<rparr>)"
    by (simp add: Tables_def)
  from absent absent_table_ErrNotFound [OF absent] show ?thesis
    by blast
qed

subsection \<open>Pruning\<close>

lemma remove_ignoring_other: "v \<noteq> n \<Longrightarrow> map_of (remove_ignoring v d) n = map_of d n"
  by (simp add: remove_ignoring_def Remove_def split: option.splits)

lemma remove_ignoring_removed: "can_remove d v \<Longrightarrow> remove_ignoring v d = AList.delete v d"
  by (auto simp: can_remove_def remove_ignoring_def Remove_def)

lemma remove_ignoring_refused: "\<not> can_remove d v \<Longrightarrow> remove_ignoring v d = d"
  by (auto simp: can_remove_def remove_ignoring_def Remove_def split: option.splits)

lemma can_remove_after:
  "can_remove (remove_ignoring v d) u \<longleftrightarrow> u \<noteq> v \<and> can_remove d u"
proof (cases "can_remove d v")
  case True
  then show ?thesis
    by (auto simp: remove_ignoring_removed can_remove_def delete_conv')
next
  case False
  then show ?thesis
    by (auto simp: remove_ignoring_refused)
qed

lemma keys_remove_ignoring:
  "set (map fst (remove_ignoring v d)) = set (map fst d) - {u. u = v \<and> can_remove d u}"
proof (cases "can_remove d v")
  case True
  then show ?thesis
    by (auto simp: remove_ignoring_removed delete_keys)
next
  case False
  then show ?thesis
    by (auto simp: remove_ignoring_refused)
qed

lemma keys_fold_remove_ignoring:
  "set (map fst (fold remove_ignoring vs d)) = set (map fst d) - {u \<in> set vs. can_remove d u}"
proof (induction vs arbitrary: d)
  case Nil
  then show ?case by simp
next
  case (Cons v vs)
  have "set (map fst (fold remove_ignoring vs (remove_ignoring v d)))
          = set (map fst (remove_ignoring v d)) - {u \<in> set vs. can_remove (remove_ignoring v d) u}"
    by (rule Cons.IH)
  also have "\<dots> = set (map fst d) - {u \<in> set (v # vs). can_remove d u}"
    by (auto simp only: keys_remove_ignoring can_remove_after list.set)
  finally show ?case by simp
qed

lemma prune_list_sorted: "sorted (prune_list i d) \<and> distinct (prune_list i d)"
  by (simp add: prune_list_def ReadDir_def sorted_filter [where f = "\<lambda>x. x", simplified])

lemma set_prune_list:
  "set (prune_list i d) = {n \<in> set (map fst d). prefix (filename i @ ''.'') n}"
  by (auto simp: prune_list_def ReadDir_def)

lemma prune_list_after_removal:
  "prune_list i (fold remove_ignoring (take k (prune_list i d)) d)
     = filter (\<lambda>n. \<not> (n \<in> set (take k (prune_list i d)) \<and> can_remove d n)) (prune_list i d)"
proof (rule sorted_distinct_set_unique)
  let ?pl = "prune_list i d"
  let ?d' = "fold remove_ignoring (take k ?pl) d"
  let ?keep = "\<lambda>n. \<not> (n \<in> set (take k ?pl) \<and> can_remove d n)"
  show "sorted (prune_list i ?d')" and "distinct (prune_list i ?d')"
    by (simp_all add: prune_list_sorted)
  from prune_list_sorted [of i d] show "sorted (filter ?keep ?pl)" and "distinct (filter ?keep ?pl)"
    by (simp_all add: sorted_filter [where f = "\<lambda>x. x", simplified])
  show "set (prune_list i ?d') = set (filter ?keep ?pl)"
    by (auto simp only: set_prune_list keys_fold_remove_ignoring set_filter)
qed

lemma filter_not_in_take:
  assumes "distinct xs"
  shows "filter (\<lambda>n. n \<notin> set (take k xs)) xs = drop k xs"
proof -
  from assms have disj: "set (take k xs) \<inter> set (drop k xs) = {}"
    by (rule set_take_disj_set_drop_if_distinct) simp
  have "filter (\<lambda>n. n \<notin> set (take k xs)) (take k xs @ drop k xs) = drop k xs"
    unfolding filter_append using disj by (auto simp: filter_empty_conv filter_id_conv)
  then show ?thesis by simp
qed

lemma prune_negative_depth: "depth i < 0 \<Longrightarrow> prune i d = (None, d)"
  by (simp add: prune_def)

lemma prune_retains:
  assumes "0 \<le> depth i" and "\<forall>n \<in> set (prune_list i d). can_remove d n"
  shows "fst (prune i d) = None \<and>
         prune_list i (snd (prune i d))
           = drop (nat (int (length (prune_list i d)) - depth i)) (prune_list i d) \<and>
         int (length (prune_list i (snd (prune i d)))) \<le> depth i"
proof (cases "int (length (prune_list i d)) - depth i < 0")
  case True
  with assms(1) show ?thesis
    by (simp add: prune_def)
next
  case False
  let ?pl = "prune_list i d"
  let ?k = "nat (int (length ?pl) - depth i)"
  from False assms(1) have p: "prune i d = (None, fold remove_ignoring (take ?k ?pl) d)"
    by (simp add: prune_def Let_def)
  have "filter (\<lambda>n. \<not> (n \<in> set (take ?k ?pl) \<and> can_remove d n)) ?pl
          = filter (\<lambda>n. n \<notin> set (take ?k ?pl)) ?pl"
    using assms(2) by (intro filter_cong) auto
  also have "\<dots> = drop ?k ?pl"
    by (rule filter_not_in_take) (simp add: prune_list_sorted)
  finally have "prune_list i (fold remove_ignoring (take ?k ?pl) d) = drop ?k ?pl"
    by (simp only: prune_list_after_removal)
  with False assms(1) show ?thesis
    by (simp add: p)
qed

lemma prune_other_entries:
  assumes "\<not> prefix (filename i @ ''.'') n"
  shows "map_of (snd (prune i d)) n = map_of d n"
proof -
  have f: "map_of (fold remove_ignoring vs d') n = map_of d' n" if "n \<notin> set vs" for vs d'
    using that by (induction vs arbitrary: d') (auto simp: remove_ignoring_other)
  from assms have "n \<notin> set (take k (prune_list i d))" for k
    by (auto simp: set_prune_list dest: in_set_takeD)
  then show ?thesis
    by (simp add: prune_def Let_def f)
qed

text \<open>
  \<open>prune\<close> discards the error of \<open>os.Remove\<close>: a directory that has entries and a
  locked file stay, whatever the depth.
\<close>

lemma prune_keeps_refused_entries:
  "prune \<lparr>filename = ''config'', depth = 0, dirty = False, created = False, tables = []\<rparr>
     [(''config'', plain_file ''new''),
      (''config.20240101.120000.000000000'', plain_file ''old''),
      (''config.d'', \<lparr>kind = Directory True, locked = False\<rparr>),
      (''config.keep'', \<lparr>kind = File ''mine'', locked = True\<rparr>)]
   = (None,
      [(''config'', plain_file ''new''),
       (''config.d'', \<lparr>kind = Directory True, locked = False\<rparr>),
       (''config.keep'', \<lparr>kind = File ''mine'', locked = True\<rparr>)])"
  by code_simp

subsection \<open>The name of the temporary file\<close>

lemma of_char_digit_char: "d < 10 \<Longrightarrow> (of_char (digit_char d) :: nat) = 48 + d"
  by simp

lemma digit_char_not_dot_star:
  assumes "d < 10"
  shows "digit_char d \<noteq> CHR ''.'' \<and> digit_char d \<noteq> CHR ''*''"
proof -
  from assms have v: "(of_char (digit_char d) :: nat) = 48 + d"
    by (rule of_char_digit_char)
  have "digit_char d \<noteq> CHR ''.''"
  proof
    assume "digit_char d = CHR ''.''"
    then have "(of_char (digit_char d) :: nat) = of_char CHR ''.''"
      by (rule arg_cong)
    with v show False by simp
  qed
  moreover have "digit_char d \<noteq> CHR ''*''"
  proof
    assume "digit_char d = CHR ''*''"
    then have "(of_char (digit_char d) :: nat) = of_char CHR ''*''"
      by (rule arg_cong)
    with v show False by simp
  qed
  ultimately show ?thesis by simp
qed

lemma itoa_head: "\<exists>d rest. d < 10 \<and> itoa n = digit_char d # rest"
proof (induction n rule: itoa.induct)
  case (1 n)
  show ?case
  proof (cases "n < 10")
    case True
    then have "itoa n = [digit_char n]"
      by (subst itoa.simps) simp
    with True show ?thesis by blast
  next
    case False
    then have e: "itoa n = itoa (n div 10) @ [digit_char (n mod 10)]"
      by (subst itoa.simps) simp
    from 1 [OF False] obtain d rest where "d < 10" and "itoa (n div 10) = digit_char d # rest"
      by blast
    with e show ?thesis by auto
  qed
qed

lemma prefixAndSuffix_cases:
  assumes "prefixAndSuffix pattern = (pre, suf)"
  shows "(pattern = pre \<and> suf = []) \<or> pattern = pre @ CHR ''*'' # suf"
proof (cases "CHR ''*'' \<in> set pattern")
  case False
  with assms show ?thesis by (simp add: prefixAndSuffix_def)
next
  case True
  let ?P = "\<lambda>c. c \<noteq> CHR ''*''"
  from True have "dropWhile ?P (rev pattern) \<noteq> []"
    by (simp add: dropWhile_eq_Nil_conv)
  then obtain x xs where dw: "dropWhile ?P (rev pattern) = x # xs"
    by (cases "dropWhile ?P (rev pattern)") auto
  then have "\<not> ?P x"
    using hd_dropWhile [of ?P "rev pattern"] by auto
  then have x: "x = CHR ''*''" by simp
  have "rev pattern = takeWhile ?P (rev pattern) @ dropWhile ?P (rev pattern)"
    by simp
  then have "rev pattern = takeWhile ?P (rev pattern) @ CHR ''*'' # xs"
    by (simp only: dw x)
  then have "pattern = rev (takeWhile ?P (rev pattern) @ CHR ''*'' # xs)"
    by (metis rev_rev_ident)
  then have "pattern = rev xs @ CHR ''*'' # rev (takeWhile ?P (rev pattern))"
    by simp
  moreover from assms True dw have "pre = rev xs" and "suf = rev (takeWhile ?P (rev pattern))"
    by (simp_all add: prefixAndSuffix_def)
  ultimately show ?thesis by simp
qed

lemma create_first_Some:
  assumes "create_first d pre suf rs = Some (f, d1)"
  shows "\<exists>r. f = pre @ itoa r @ suf \<and> map_of d f = None \<and> d1 = d @ [(f, plain_file [])]"
  using assms
  by (induction rs) (auto simp: Let_def split: option.splits)

lemma CreateTemp_Some:
  assumes "CreateTemp d pattern rnds = Some (f, d1)"
  shows "map_of d f = None \<and> d1 = d @ [(f, plain_file [])] \<and> f \<noteq> pattern \<and> f \<noteq> pattern @ CHR ''.'' # now"
proof -
  obtain pre suf where ps: "prefixAndSuffix pattern = (pre, suf)"
    by (cases "prefixAndSuffix pattern")
  with assms have "create_first d pre suf (take 10000 rnds) = Some (f, d1)"
    by (simp add: CreateTemp_def)
  from create_first_Some [OF this] obtain r where
    f: "f = pre @ itoa r @ suf" and free: "map_of d f = None" and d1: "d1 = d @ [(f, plain_file [])]"
    by blast
  from itoa_head [of r] obtain dg rest where dg: "dg < 10" and it: "itoa r = digit_char dg # rest"
    by blast
  from digit_char_not_dot_star [OF dg] have nd: "digit_char dg \<noteq> CHR ''.''" and ns: "digit_char dg \<noteq> CHR ''*''"
    by simp_all
  from prefixAndSuffix_cases [OF ps] have "f \<noteq> pattern \<and> f \<noteq> pattern @ CHR ''.'' # now"
  proof
    assume "pattern = pre \<and> suf = []"
    with f it nd show ?thesis by auto
  next
    assume "pattern = pre @ CHR ''*'' # suf"
    with f it ns show ?thesis by auto
  qed
  with free d1 show ?thesis by simp
qed

subsection \<open>Save\<close>

lemma backup_name_neq: "backup_name i now \<noteq> filename i"
  by (simp add: backup_name_def)

lemma Rename_to_free_name:
  assumes "map_of d old = Some e" and "\<not> locked e" and "map_of d new = None"
  shows "\<exists>d'. Rename old new d = Some d' \<and> map_of d' = ((map_of d)(old := None))(new \<mapsto> e)"
  using assms by (simp add: Rename_def update_conv' delete_conv')

lemma flush_backs_up:
  assumes nc: "\<not> created i" and old: "map_of d (filename i) = Some e" and ul: "\<not> locked e"
    and nb: "map_of d (backup_name i now) = None"
    and tmp: "CreateTemp d (filename i) rnds = Some (f, d1)"
  shows "\<exists>d4. flush i d rnds now = (None, d4) \<and>
           map_of d4 = (map_of d)(backup_name i now \<mapsto> e,
                                  filename i \<mapsto> plain_file (write_tables (tables i)))"
proof -
  let ?c = "plain_file (write_tables (tables i))"
  let ?b = "backup_name i now"
  from CreateTemp_Some [OF tmp, of now] have free: "map_of d f = None"
    and d1: "d1 = d @ [(f, plain_file [])]"
    and fn: "f \<noteq> filename i" and fb: "f \<noteq> ?b"
    by (simp_all add: backup_name_def)
  define d2 where "d2 = AList.update f ?c d1"
  have m2: "map_of d2 = (map_of d)(f \<mapsto> ?c)"
    by (rule ext) (simp add: d2_def update_conv' d1 map_add_def free split: option.splits)
  from old fn have o2: "map_of d2 (filename i) = Some e"
    by (simp add: m2)
  from nb fb have n2: "map_of d2 ?b = None"
    by (simp add: m2)
  from Rename_to_free_name [OF o2 ul n2] obtain d3 where
    r1: "Rename (filename i) ?b d2 = Some d3" and
    m3: "map_of d3 = ((map_of d2)(filename i := None))(?b \<mapsto> e)"
    by blast
  from fn fb have o3: "map_of d3 f = Some ?c"
    by (simp add: m3 m2)
  have n3: "map_of d3 (filename i) = None"
    by (simp add: m3 backup_name_neq [symmetric])
  have "\<not> locked ?c"
    by (simp add: plain_file_def)
  from Rename_to_free_name [OF o3 this n3] obtain d4 where
    r2: "Rename f (filename i) d3 = Some d4" and
    m4: "map_of d4 = ((map_of d3)(f := None))(filename i \<mapsto> ?c)"
    by blast
  have "flush i d rnds now = (None, d4)"
    using nc tmp r1 r2 by (simp add: flush_def d2_def Let_def)
  moreover have "map_of d4 = (map_of d)(?b \<mapsto> e, filename i \<mapsto> ?c)"
    using free fn fb by (auto simp: m4 m3 m2 fun_eq_iff)
  ultimately show ?thesis by blast
qed

lemma prune_list_dirty: "prune_list (i\<lparr>dirty := b\<rparr>) d = prune_list i d"
  by (simp add: prune_list_def)

lemma Save_not_dirty: "\<not> dirty i \<Longrightarrow> Save i d rnds now = (None, i, d)"
  by (simp add: Save_def)

text \<open>
  A database opened from an existing file (\<open>created\<close> is not set), at a time whose
  backup name is free: \<open>Save\<close> renames the file to its backup, puts the new contents
  under its name, and \<open>prune\<close> then leaves at most \<open>depth\<close> entries named after the
  file when \<open>os.Remove\<close> refuses none of them, or all of them when \<open>depth\<close> is negative.
  \<open>d4\<close> is the directory before \<open>prune\<close> and \<open>d5\<close> the one \<open>Save\<close> leaves.
\<close>

lemma Save_backs_up_then_prunes:
  assumes "dirty i" and "\<not> created i"
    and old: "map_of d (filename i) = Some e" and re: "removable e"
    and nb: "map_of d (backup_name i now) = None"
    and others: "\<forall>n \<in> set (prune_list i d). can_remove d n"
    and tmp: "CreateTemp d (filename i) rnds = Some (f, d1)"
  shows "\<exists>d4 d5.
           flush i d rnds now = (None, d4) \<and>
           map_of d4 (backup_name i now) = Some e \<and>
           map_of d4 (filename i) = Some (plain_file (write_tables (tables i))) \<and>
           Save i d rnds now = (None, i\<lparr>dirty := False\<rparr>, d5) \<and>
           map_of d5 (filename i) = Some (plain_file (write_tables (tables i))) \<and>
           (0 \<le> depth i \<longrightarrow> int (length (prune_list i d5)) \<le> depth i) \<and>
           (depth i < 0 \<longrightarrow> d5 = d4)"
proof -
  let ?i = "i\<lparr>dirty := False\<rparr>"
  let ?c = "plain_file (write_tables (tables i))"
  from re have ul: "\<not> locked e"
    by (simp add: removable_def)
  from flush_backs_up [OF assms(2) old ul nb tmp] obtain d4 where
    fl: "flush i d rnds now = (None, d4)" and
    m4: "map_of d4 = (map_of d)(backup_name i now \<mapsto> e, filename i \<mapsto> ?c)"
    by blast
  have b: "map_of d4 (backup_name i now) = Some e"
    by (simp add: m4 backup_name_neq)
  have c: "map_of d4 (filename i) = Some ?c"
    by (simp add: m4)
  have np: "\<not> prefix (filename ?i @ ''.'') (filename i)"
    by (simp add: prefix_def)
  have rem: "\<forall>n \<in> set (prune_list ?i d4). can_remove d4 n"
  proof
    fix n
    assume n: "n \<in> set (prune_list ?i d4)"
    then have pre: "prefix (filename i @ ''.'') n" and key: "n \<in> set (map fst d4)"
      by (simp_all add: set_prune_list)
    from pre have nf: "n \<noteq> filename i"
      by (auto simp: prefix_def)
    show "can_remove d4 n"
    proof (cases "n = backup_name i now")
      case True
      with b re show ?thesis by (simp add: can_remove_def)
    next
      case False
      with nf have same: "map_of d4 n = map_of d n"
        by (simp add: m4)
      from key have "map_of d4 n \<noteq> None"
        by (simp add: map_of_eq_None_iff)
      with same have "n \<in> set (map fst d)"
        by (simp add: map_of_eq_None_iff)
      with pre have "n \<in> set (prune_list i d)"
        by (simp add: set_prune_list)
      with others have "can_remove d n" by blast
      with same show ?thesis by (simp add: can_remove_def)
    qed
  qed
  have s: "Save i d rnds now = (None, ?i, snd (prune ?i d4))"
  proof (cases "0 \<le> depth i")
    case True
    then have "fst (prune ?i d4) = None"
      using prune_retains [of ?i d4] rem by simp
    with assms(1) fl show ?thesis by (simp add: Save_def Let_def)
  next
    case False
    then have "prune ?i d4 = (None, d4)"
      by (simp add: prune_negative_depth)
    with assms(1) fl show ?thesis by (simp add: Save_def Let_def)
  qed
  have k: "map_of (snd (prune ?i d4)) (filename i) = Some ?c"
    using prune_other_entries [OF np, of d4] c by simp
  have le: "0 \<le> depth i \<longrightarrow> int (length (prune_list i (snd (prune ?i d4)))) \<le> depth i"
    using prune_retains [of ?i d4] rem by (simp add: prune_list_dirty [symmetric, of i _ False])
  have neg: "depth i < 0 \<longrightarrow> snd (prune ?i d4) = d4"
    by (simp add: prune_negative_depth)
  from fl b c s k le neg show ?thesis by blast
qed

text \<open>
  C1 does not hold of a database that \<open>New\<close> created: \<open>created\<close> stays set after the
  first \<open>Save\<close>, so every later \<open>Save\<close> of the session skips the backup and the new
  contents replace the file on disk. Here \<open>New\<close> creates \<^verbatim>\<open>config\<close> with depth 3, a record
  is set and the database saved: the directory then holds the new \<^verbatim>\<open>config\<close> alone, and
  the contents that \<open>New\<close> had written are in no file.
\<close>

theorem Save_after_create_keeps_no_backup:
  "New (\<lambda>s. None) ''config'' True 3 (Some []) [1] ''20240101.120000.000000000''
     = (Some \<lparr>filename = ''config'', depth = 3, dirty = False, created = True, tables = [([], [])]\<rparr>,
        Some ErrCreated,
        Some [(''config'', plain_file ''# This file is autogenerated, DO NOT EDIT!\<newline>\<newline>'')]) \<and>
   Set \<lparr>filename = ''config'', depth = 3, dirty = False, created = True, tables = [([], [])]\<rparr>
       [] ''nick'' ''bob''
     = (None, \<lparr>filename = ''config'', depth = 3, dirty = True, created = True,
               tables = [([], [(''nick'', ''bob'')])]\<rparr>) \<and>
   Save \<lparr>filename = ''config'', depth = 3, dirty = True, created = True,
         tables = [([], [(''nick'', ''bob'')])]\<rparr>
        [(''config'', plain_file ''# This file is autogenerated, DO NOT EDIT!\<newline>\<newline>'')]
        [2] ''20240101.120500.000000000''
     = (None,
        \<lparr>filename = ''config'', depth = 3, dirty = False, created = True,
         tables = [([], [(''nick'', ''bob'')])]\<rparr>,
        [(''config'', plain_file ''# This file is autogenerated, DO NOT EDIT!\<newline>nick = bob\<newline>\<newline>'')])"
  by code_simp

section \<open>Properties of chat messages and chat windows\<close>

subsection \<open>The split passes\<close>

lemma slice_Some: "slice s lo hi = Some x \<Longrightarrow> lo \<le> hi \<and> hi \<le> length s \<and> x = take (hi - lo) (drop lo s)"
  by (auto simp: slice_def split: if_splits)

lemma slice_in_range: "lo \<le> hi \<Longrightarrow> hi \<le> length s \<Longrightarrow> slice s lo hi = Some (take (hi - lo) (drop lo s))"
  by (simp add: slice_def)

lemma take_drop_drop: "lo \<le> hi \<Longrightarrow> take (hi - lo) (drop lo s) @ drop hi s = drop lo s"
proof -
  assume "lo \<le> hi"
  then have "drop hi s = drop (hi - lo) (drop lo s)"
    by simp
  then show ?thesis
    by (simp only: append_take_drop_id)
qed

lemma el_content_text_el: "el_content (text_el s) = s"
  by (simp add: el_content_def text_el_def)

lemma el_content_mention_el: "el_content (mention_el m) = m"
  by (simp add: el_content_def mention_el_def)

lemma el_content_url_el: "el_content (url_el u) = u"
  by (simp add: el_content_def url_el_def)

lemma line_content_Cons: "line_content (el # l) = el_content el @ line_content l"
  by (simp add: line_content_def)

lemma line_content_append: "line_content (l @ l') = line_content l @ line_content l'"
  by (simp add: line_content_def)

lemma line_content_Nil: "line_content [] = []"
  by (simp add: line_content_def)

lemma split_positions_content:
  assumes "split_positions mk s e positions = Some (els, e')" and "\<And>m. el_content (mk m) = m"
  shows "line_content els @ drop e' s = drop e s \<and> e \<le> e'"
  using assms(1)
proof (induction positions arbitrary: e els)
  case Nil
  then show ?case by (simp add: line_content_Nil)
next
  case (Cons pos positions)
  from Cons.prems obtain pre m els0 where
    pre: "slice s e (fst pos) = Some pre" and
    m: "slice s (fst pos) (snd pos) = Some m" and
    rest: "split_positions mk s (snd pos) positions = Some (els0, e')" and
    els: "els = text_el pre # mk m # els0"
    by (auto split: option.splits)
  from Cons.IH [OF rest] have ih: "line_content els0 @ drop e' s = drop (snd pos) s" and le: "snd pos \<le> e'"
    by simp_all
  from slice_Some [OF pre] have b1: "e \<le> fst pos" and p: "pre = take (fst pos - e) (drop e s)"
    by simp_all
  from slice_Some [OF m] have b2: "fst pos \<le> snd pos" and q: "m = take (snd pos - fst pos) (drop (fst pos) s)"
    by simp_all
  have "line_content els @ drop e' s = pre @ m @ drop (snd pos) s"
    by (simp add: els line_content_Cons el_content_text_el assms(2) ih)
  also have "\<dots> = pre @ drop (fst pos) s"
    by (simp only: q take_drop_drop [OF b2])
  also have "\<dots> = drop e s"
    by (simp only: p take_drop_drop [OF b1])
  finally show ?case using b1 b2 le by simp
qed

lemma plain_text_text_el: "plain_text (text_el s)"
  by (simp add: plain_text_def text_el_def)

lemma split_positions_plain:
  assumes "split_positions mk s e positions = Some (els, e')" and "\<And>m. plain_text (mk m)"
  shows "list_all plain_text els"
  using assms(1)
proof (induction positions arbitrary: e els)
  case Nil
  then show ?case by simp
next
  case (Cons pos positions)
  then show ?case
    by (auto split: option.splits simp: assms(2) plain_text_text_el)
qed

lemma split_positions_total:
  assumes "successive s e positions" and "e \<le> length s"
  shows "\<exists>els e'. split_positions mk s e positions = Some (els, e') \<and> e' \<le> length s"
  using assms
proof (induction positions arbitrary: e)
  case Nil
  then show ?case by simp
next
  case (Cons pos positions)
  from Cons.prems have b: "e \<le> fst pos" "fst pos \<le> snd pos" "snd pos \<le> length s"
    and rest: "successive s (snd pos) positions"
    by simp_all
  from Cons.IH [OF rest b(3)] obtain els e' where
    "split_positions mk s (snd pos) positions = Some (els, e')" and "e' \<le> length s"
    by blast
  with b show ?case
    by (simp add: slice_in_range)
qed

lemma split_el_content:
  assumes "split_el re mk el = Some els" and "plain_text el" and "\<And>m. el_content (mk m) = m"
  shows "line_content els = el_content el"
proof (cases "text' el = [] \<or> length (re (text' el)) = 0")
  case True
  with assms(1) have "els = [el]"
    by (auto simp: split_el_def Let_def split: if_splits)
  then show ?thesis
    by (simp add: line_content_def)
next
  case False
  with assms(1) obtain els0 lastEnd rest where
    pos: "split_positions mk (text' el) 0 (re (text' el)) = Some (els0, lastEnd)" and
    rest: "slice (text' el) lastEnd (length (text' el)) = Some rest" and
    els: "els = els0 @ [text_el rest]"
    by (auto simp: split_el_def Let_def split: option.splits)
  from split_positions_content [OF pos assms(3)]
  have c: "line_content els0 @ drop lastEnd (text' el) = text' el"
    by simp
  from slice_Some [OF rest] have "rest = drop lastEnd (text' el)"
    by simp
  with c els have "line_content els = text' el"
    by (simp add: line_content_append line_content_Cons line_content_Nil el_content_text_el)
  moreover from False assms(2) have "el_content el = text' el"
    by (simp add: plain_text_def el_content_def)
  ultimately show ?thesis by simp
qed

lemma split_el_plain:
  assumes "split_el re mk el = Some els" and "plain_text el" and "\<And>m. plain_text (mk m)"
  shows "list_all plain_text els"
proof (cases "text' el = [] \<or> length (re (text' el)) = 0")
  case True
  with assms(1) have "els = [el]"
    by (auto simp: split_el_def Let_def split: if_splits)
  with assms(2) show ?thesis
    by simp
next
  case False
  with assms(1) obtain els0 lastEnd rest where
    pos: "split_positions mk (text' el) 0 (re (text' el)) = Some (els0, lastEnd)" and
    els: "els = els0 @ [text_el rest]"
    by (auto simp: split_el_def Let_def split: option.splits)
  from split_positions_plain [OF pos assms(3)] els show ?thesis
    by (simp add: plain_text_text_el)
qed

lemma split_el_total:
  assumes "matches_ok re"
  shows "\<exists>els. split_el re mk el = Some els"
proof (cases "text' el = [] \<or> length (re (text' el)) = 0")
  case True
  then show ?thesis
    by (auto simp: split_el_def Let_def)
next
  case False
  from assms have "successive (text' el) 0 (re (text' el))"
    by (simp add: matches_ok_def)
  from split_positions_total [OF this, of mk] obtain els0 lastEnd where
    "split_positions mk (text' el) 0 (re (text' el)) = Some (els0, lastEnd)" and
    "lastEnd \<le> length (text' el)"
    by auto
  with False show ?thesis
    by (simp add: split_el_def Let_def slice_in_range)
qed

lemma split_line_content:
  assumes "split_line re mk l = Some l'" and "list_all plain_text l" and "\<And>m. el_content (mk m) = m"
  shows "line_content l' = line_content l"
  using assms(1,2)
proof (induction l arbitrary: l')
  case Nil
  then show ?case by simp
next
  case (Cons el l)
  from Cons.prems(1) obtain els l0 where
    el: "split_el re mk el = Some els" and l0: "split_line re mk l = Some l0" and l': "l' = els @ l0"
    by (auto split: option.splits)
  from Cons.prems(2) have "plain_text el" and "list_all plain_text l"
    by simp_all
  with Cons.IH [OF l0] split_el_content [OF el _ assms(3)] l' show ?case
    by (simp add: line_content_append line_content_Cons)
qed

lemma split_line_plain:
  assumes "split_line re mk l = Some l'" and "list_all plain_text l" and "\<And>m. plain_text (mk m)"
  shows "list_all plain_text l'"
  using assms(1,2)
proof (induction l arbitrary: l')
  case Nil
  then show ?case by simp
next
  case (Cons el l)
  from Cons.prems(1) obtain els l0 where
    el: "split_el re mk el = Some els" and l0: "split_line re mk l = Some l0" and l': "l' = els @ l0"
    by (auto split: option.splits)
  from Cons.prems(2) have "plain_text el" and "list_all plain_text l"
    by simp_all
  with Cons.IH [OF l0] split_el_plain [OF el _ assms(3)] l' show ?case
    by simp
qed

lemma split_line_total:
  assumes "matches_ok re"
  shows "\<exists>l'. split_line re mk l = Some l'"
proof (induction l)
  case Nil
  then show ?case by simp
next
  case (Cons el l)
  with split_el_total [OF assms, of mk el] show ?case
    by auto
qed

lemma regexps_ok_example: "regexps_ok example_regexps"
  by (auto simp: regexps_ok_def matches_ok_def example_regexps_def split: if_splits)

lemma splitMentions_content:
  assumes "regexps_ok env" and "list_all plain_text l"
  shows "\<exists>l'. splitMentions env l mention' = Some l' \<and> line_content l' = line_content l"
proof (cases "Compile env (word_boundary @ mention' @ word_boundary)")
  case None
  then show ?thesis by (simp add: splitMentions_def)
next
  case (Some re)
  with assms(1) have "matches_ok re"
    by (auto simp: regexps_ok_def)
  from split_line_total [OF this, of mention_el l] obtain l' where
    l': "split_line re mention_el l = Some l'"
    by blast
  from split_line_content [OF l' assms(2) el_content_mention_el] l' Some show ?thesis
    by (simp add: splitMentions_def)
qed

lemma splitURLs_content:
  assumes "regexps_ok env" and "list_all plain_text l"
  shows "\<exists>l'. splitURLs env l = Some l' \<and> line_content l' = line_content l"
proof -
  from assms(1) have "matches_ok (urlRegexp env)"
    by (simp add: regexps_ok_def)
  from split_line_total [OF this, of url_el l] obtain l' where
    l': "split_line (urlRegexp env) url_el l = Some l'"
    by blast
  from split_line_content [OF l' assms(2) el_content_url_el] l' show ?thesis
    by (simp add: splitURLs_def)
qed

text \<open>
  Every line the program builds is made of elements that have one field each: an element
  that has text has neither a mention nor a URL. \<open>parseLine\<close> starts from one text
  element and each of the three passes keeps the property, whatever the regular
  expressions answer.
\<close>

lemma plain_text_mention_el: "plain_text (mention_el m)"
  by (simp add: plain_text_def mention_el_def)

lemma plain_text_url_el: "plain_text (url_el u)"
  by (simp add: plain_text_def url_el_def)

lemma plain_text_embed_el: "plain_text (embed_el args)"
  by (simp add: plain_text_def embed_el_def)

lemma splitEmbeds_plain:
  "splitEmbeds env l = Some l' \<Longrightarrow> list_all plain_text l \<Longrightarrow> list_all plain_text l'"
  unfolding splitEmbeds_def by (erule split_line_plain) (simp_all add: plain_text_embed_el)

lemma splitURLs_plain:
  "splitURLs env l = Some l' \<Longrightarrow> list_all plain_text l \<Longrightarrow> list_all plain_text l'"
  unfolding splitURLs_def by (erule split_line_plain) (simp_all add: plain_text_url_el)

lemma splitMentions_plain:
  assumes "splitMentions env l mention' = Some l'" and "list_all plain_text l"
  shows "list_all plain_text l'"
proof (cases "Compile env (word_boundary @ mention' @ word_boundary)")
  case None
  with assms show ?thesis by (simp add: splitMentions_def)
next
  case (Some re)
  with assms(1) have "split_line re mention_el l = Some l'"
    by (simp add: splitMentions_def)
  from split_line_plain [OF this assms(2) plain_text_mention_el] show ?thesis .
qed

lemma parseLine_plain:
  assumes "parseLine env l line mention' = Some l'" and "list_all plain_text l"
  shows "list_all plain_text l'"
proof -
  from assms(1) obtain l1 l2 where
    l1: "splitEmbeds env (l @ [text_el line]) = Some l1" and
    l2: "splitURLs env l1 = Some l2" and
    l3: "(if mention' \<noteq> [] then splitMentions env l2 mention' else Some l2) = Some l'"
    by (auto simp: parseLine_def split: option.splits)
  from assms(2) have "list_all plain_text (l @ [text_el line])"
    by (simp add: plain_text_text_el)
  from splitEmbeds_plain [OF l1 this] have "list_all plain_text l1" .
  from splitURLs_plain [OF l2 this] have p2: "list_all plain_text l2" .
  show ?thesis
  proof (cases "mention' = []")
    case True
    with l3 p2 show ?thesis by simp
  next
    case False
    with l3 have "splitMentions env l2 mention' = Some l'" by simp
    from splitMentions_plain [OF this p2] show ?thesis .
  qed
qed

lemma parseMsgLine_plain: "parseMsgLine env line mention' = Some l \<Longrightarrow> list_all plain_text l"
  unfolding parseMsgLine_def by (erule parseLine_plain) simp

lemma parse_lines_plain:
  "parse_lines env lines mention' = Some res \<Longrightarrow> list_all (list_all plain_text) res"
proof (induction lines arbitrary: res)
  case Nil
  then show ?case by simp
next
  case (Cons line lines)
  from Cons.prems obtain l res0 where
    l: "parseMsgLine env line mention' = Some l" and
    r: "parse_lines env lines mention' = Some res0" and res: "res = l # res0"
    by (auto split: option.splits)
  from parseMsgLine_plain [OF l] Cons.IH [OF r] res show ?case by simp
qed

lemma parseMsgIntoElements_plain:
  "parseMsgIntoElements env msg' mention' = Some res \<Longrightarrow> list_all (list_all plain_text) res"
  unfolding parseMsgIntoElements_def by (rule parse_lines_plain)

text \<open>
  So within \<open>parseMsgLine\<close> the URL pass and the mention pass return and leave the content
  of the line as the embed pass left it.
\<close>

lemma parseMsgLine_passes_preserve_content:
  assumes "regexps_ok env"
  shows "\<exists>l1 l2 l3.
           splitEmbeds env [text_el line] = Some l1 \<and>
           splitURLs env l1 = Some l2 \<and> line_content l2 = line_content l1 \<and>
           splitMentions env l2 mention' = Some l3 \<and> line_content l3 = line_content l2"
proof -
  from assms have e: "matches_ok (embedRegexp env)"
    by (simp add: regexps_ok_def)
  from split_line_total [OF e] obtain l1 where l1: "splitEmbeds env [text_el line] = Some l1"
    unfolding splitEmbeds_def by blast
  have "list_all plain_text [text_el line :: 'a chatMsgEl]"
    by (simp add: plain_text_text_el)
  from splitEmbeds_plain [OF l1 this] have p1: "list_all plain_text l1" .
  from splitURLs_content [OF assms p1] obtain l2 where
    l2: "splitURLs env l1 = Some l2" and c2: "line_content l2 = line_content l1"
    by blast
  from splitURLs_plain [OF l2 p1] have p2: "list_all plain_text l2" .
  from splitMentions_content [OF assms p2, of mention'] obtain l3 where
    "splitMentions env l2 mention' = Some l3" and "line_content l3 = line_content l2"
    by blast
  with l1 l2 c2 show ?thesis by blast
qed

text \<open>
  C9: \<open>splitMentions\<close> and \<open>splitURLs\<close> preserve content. For every mention and every line
  whose elements have one field each, as all lines the program builds have
  (\<open>parseMsgLine_plain\<close>, \<open>parseMsgIntoElements_plain\<close>), each pass returns a line whose
  content, the texts, mentions and URLs of its elements in order, is the content of the
  line it was given: no character is lost or duplicated. The regular expressions answer
  as package \<^verbatim>\<open>regexp\<close> does.
\<close>

theorem split_passes_preserve_content:
  assumes "regexps_ok env" and "list_all plain_text l"
  shows "(\<exists>l'. splitMentions env l mention' = Some l' \<and> line_content l' = line_content l) \<and>
         (\<exists>l'. splitURLs env l = Some l' \<and> line_content l' = line_content l)"
  using assms by (simp add: splitMentions_content splitURLs_content)

theorem split_passes_preserve_content_witness:
  "regexps_ok example_regexps \<and>
   list_all plain_text
     [text_el ''hi bob'', url_el ''http://x'', text_el ''see http://x now'' :: unit chatMsgEl] \<and>
   (\<exists>l'. splitMentions example_regexps
            [text_el ''hi bob'', url_el ''http://x'', text_el ''see http://x now''] ''bob'' = Some l' \<and>
          line_content l' = ''hi bobhttp://xsee http://x now'') \<and>
   (\<exists>l'. splitURLs example_regexps
            [text_el ''hi bob'', url_el ''http://x'', text_el ''see http://x now''] = Some l' \<and>
          line_content l' = ''hi bobhttp://xsee http://x now'')"
proof -
  let ?l = "[text_el ''hi bob'', url_el ''http://x'', text_el ''see http://x now''] :: unit chatMsgElLine"
  have p: "list_all plain_text ?l"
    by (simp add: plain_text_def text_el_def url_el_def)
  have c: "line_content ?l = ''hi bobhttp://xsee http://x now''"
    by (simp add: line_content_def el_content_def text_el_def url_el_def)
  from regexps_ok_example p split_passes_preserve_content [OF regexps_ok_example p, of "''bob''"] c
  show ?thesis
    by simp
qed

subsection \<open>The unread index\<close>

lemma parseLine_total:
  assumes "regexps_ok env"
  shows "\<exists>l'. parseLine env l line mention' = Some l'"
proof -
  from assms have e: "matches_ok (embedRegexp env)" and u: "matches_ok (urlRegexp env)"
    by (simp_all add: regexps_ok_def)
  from split_line_total [OF e] obtain l1 where
    l1: "splitEmbeds env (l @ [text_el line]) = Some l1"
    unfolding splitEmbeds_def by blast
  from split_line_total [OF u] obtain l2 where l2: "splitURLs env l1 = Some l2"
    unfolding splitURLs_def by blast
  have "\<exists>l3. splitMentions env l2 mention' = Some l3"
  proof (cases "Compile env (word_boundary @ mention' @ word_boundary)")
    case None
    then show ?thesis by (simp add: splitMentions_def)
  next
    case (Some re)
    with assms have "matches_ok re"
      by (auto simp: regexps_ok_def)
    from split_line_total [OF this] Some show ?thesis
      by (simp add: splitMentions_def)
  qed
  with l1 l2 show ?thesis
    by (auto simp: parseLine_def)
qed

lemma parse_lines_total:
  assumes "regexps_ok env"
  shows "\<exists>res. parse_lines env lines mention' = Some res"
proof (induction lines)
  case Nil
  then show ?case by simp
next
  case (Cons line lines)
  from parseLine_total [OF assms, of "[]" line mention'] obtain l where
    "parseMsgLine env line mention' = Some l"
    unfolding parseMsgLine_def by blast
  with Cons show ?case by auto
qed

lemma parseMsgIntoElements_total:
  "regexps_ok env \<Longrightarrow> \<exists>res. parseMsgIntoElements env msg' mention' = Some res"
  by (simp add: parseMsgIntoElements_def parse_lines_total)

lemma unread_in_range_appendMsg:
  "unread_in_range cw \<Longrightarrow> unread_in_range (appendMsg cw m)"
  by (cases m) (auto simp: appendMsg_def unread_in_range_def Let_def)

lemma unread_in_range_markAllRead: "unread_in_range (markAllRead cw)"
  by (simp add: markAllRead_def unread_in_range_def)

lemma unread_in_range_manyHelpMsgs:
  "manyHelpMsgs env cw prints = Some cw' \<Longrightarrow> unread_in_range cw \<Longrightarrow> unread_in_range cw'"
proof (induction prints arbitrary: cw)
  case Nil
  then show ?case by simp
next
  case (Cons p prints)
  from Cons.prems(1) obtain m where
    step: "manyHelpMsgs env (cw\<lparr>msgs := msgs cw @ [m]\<rparr>) prints = Some cw'"
    by (auto simp: Let_def split: option.splits)
  from Cons.prems(2) have "unread_in_range (cw\<lparr>msgs := msgs cw @ [m]\<rparr>)"
    by (simp add: unread_in_range_def)
  then show ?case by (rule Cons.IH [OF step])
qed

lemma manyHelpMsgs_total:
  assumes "regexps_ok env"
  shows "\<exists>cw'. manyHelpMsgs env cw prints = Some cw'"
proof (induction prints arbitrary: cw)
  case Nil
  then show ?case by simp
next
  case (Cons p prints)
  from parseMsgIntoElements_total [OF assms, of "fst p" "[]"] obtain els where
    "parseMsgIntoElements env (fst p) [] = Some els"
    by blast
  with Cons show ?case
    by (simp add: Let_def)
qed

lemma unread_in_range_call:
  assumes "call env cw c = Some cw'" and "unread_in_range cw"
  shows "unread_in_range cw'"
proof (cases c)
  case (AppendMsg m)
  with assms show ?thesis by (auto simp: unread_in_range_appendMsg)
next
  case (NewUnsentPM msg' now)
  with assms show ?thesis
    by (auto simp: newUnsentPM_def Let_def unread_in_range_appendMsg split: option.splits)
next
  case (NewInternalMsg msg' now)
  with assms show ?thesis
    by (auto simp: newInternalMsg_def Let_def unread_in_range_appendMsg split: option.splits)
next
  case (ManyHelpMsgs prints)
  with assms show ?thesis by (auto dest: unread_in_range_manyHelpMsgs)
next
  case (NewRecvdMsg from'' msg' fromUID' ts')
  with assms show ?thesis
    by (auto simp: newRecvdMsg_def Let_def unread_in_range_appendMsg split: option.splits)
next
  case MarkAllRead
  with assms show ?thesis by (auto simp: unread_in_range_markAllRead)
qed

lemma call_total:
  assumes "regexps_ok env"
  shows "\<exists>cw'. call env cw c = Some cw'"
proof (cases c)
  case (NewUnsentPM msg' now)
  with parseMsgIntoElements_total [OF assms, of msg' "[]"] show ?thesis
    by (auto simp: newUnsentPM_def Let_def)
next
  case (NewInternalMsg msg' now)
  with parseMsgIntoElements_total [OF assms, of msg' "[]"] show ?thesis
    by (auto simp: newInternalMsg_def Let_def)
next
  case (ManyHelpMsgs prints)
  with manyHelpMsgs_total [OF assms] show ?thesis by simp
next
  case (NewRecvdMsg from'' msg' fromUID' ts')
  with parseMsgIntoElements_total [OF assms, of msg' "me cw"] show ?thesis
    by (auto simp: newRecvdMsg_def Let_def)
qed simp_all

lemma unread_in_range_calls:
  "calls env cw cs = Some cw' \<Longrightarrow> unread_in_range cw \<Longrightarrow> unread_in_range cw'"
proof (induction cs arbitrary: cw)
  case Nil
  then show ?case by simp
next
  case (Cons c cs)
  from Cons.prems(1) obtain cw1 where
    c: "call env cw c = Some cw1" and cs: "calls env cw1 cs = Some cw'"
    by (auto split: option.splits)
  from unread_in_range_call [OF c Cons.prems(2)] have "unread_in_range cw1" .
  then show ?case by (rule Cons.IH [OF cs])
qed

lemma calls_total:
  assumes "regexps_ok env"
  shows "\<exists>cw'. calls env cw cs = Some cw'"
proof (induction cs arbitrary: cw)
  case Nil
  then show ?case by simp
next
  case (Cons c cs)
  from call_total [OF assms, of cw c] obtain cw1 where "call env cw c = Some cw1"
    by blast
  with Cons [of cw1] show ?case by simp
qed

text \<open>
  C10: from a window with no messages and \<open>unreadIdx = 0\<close>, after any calls of
  \<open>appendMsg\<close>, \<open>newUnsentPM\<close>, \<open>newInternalMsg\<close>, \<open>manyHelpMsgs\<close>, \<open>newRecvdMsg\<close> and
  \<open>markAllRead\<close> the index of the first unread message is between 0 and the number of
  messages, and so is \<open>unreadCount\<close>; the calls do return, given regular expressions that
  answer as package \<^verbatim>\<open>regexp\<close> does; and \<open>appendMsg\<close> with \<^verbatim>\<open>nil\<close> leaves a window as it is.
\<close>

theorem chat_window_unread_invariant:
  assumes "msgs cw0 = []" and "unreadIdx cw0 = 0"
  shows "(regexps_ok env \<longrightarrow> (\<exists>cw. calls env cw0 cs = Some cw)) \<and>
         (\<forall>cw. calls env cw0 cs = Some cw \<longrightarrow>
            0 \<le> unreadIdx cw \<and> unreadIdx cw \<le> int (length (msgs cw)) \<and>
            0 \<le> unreadCount cw \<and> unreadCount cw \<le> int (length (msgs cw))) \<and>
         appendMsg cw1 None = cw1"
proof (intro conjI impI allI)
  assume "regexps_ok env"
  then show "\<exists>cw. calls env cw0 cs = Some cw"
    by (rule calls_total)
next
  fix cw
  assume run: "calls env cw0 cs = Some cw"
  from assms have "unread_in_range cw0"
    by (simp add: unread_in_range_def)
  from unread_in_range_calls [OF run this]
  show "0 \<le> unreadIdx cw" and "unreadIdx cw \<le> int (length (msgs cw))"
    and "0 \<le> unreadCount cw" and "unreadCount cw \<le> int (length (msgs cw))"
    by (simp_all add: unread_in_range_def unreadCount_def)
next
  show "appendMsg cw1 None = cw1"
    by (simp add: appendMsg_def)
qed

theorem chat_window_unread_invariant_witness:
  "msgs example_window = [] \<and> unreadIdx example_window = 0 \<and>
   (\<exists>cw. calls example_regexps example_window
            [NewUnsentPM ''hello'' 1, NewRecvdMsg ''alice'' ''hi bob'' None 2, MarkAllRead,
             NewRecvdMsg ''alice'' ''see http://x now'' None 3, ManyHelpMsgs [(''usage'', 4)],
             AppendMsg None] = Some cw \<and>
          0 \<le> unreadIdx cw \<and> unreadIdx cw \<le> int (length (msgs cw)) \<and>
          0 \<le> unreadCount cw \<and> unreadCount cw \<le> int (length (msgs cw))) \<and>
   map_option (\<lambda>cw. (unreadIdx cw, length (msgs cw), unreadCount cw))
     (calls example_regexps example_window
        [NewUnsentPM ''hello'' 1, NewRecvdMsg ''alice'' ''hi bob'' None 2, MarkAllRead,
         NewRecvdMsg ''alice'' ''see http://x now'' None 3, ManyHelpMsgs [(''usage'', 4)],
         AppendMsg None]) = Some (2, 4, 2)"
proof -
  have m: "msgs example_window = []" and u: "unreadIdx example_window = 0"
    by (simp_all add: example_window_def)
  have v: "map_option (\<lambda>cw. (unreadIdx cw, length (msgs cw), unreadCount cw))
     (calls example_regexps example_window
        [NewUnsentPM ''hello'' 1, NewRecvdMsg ''alice'' ''hi bob'' None 2, MarkAllRead,
         NewRecvdMsg ''alice'' ''see http://x now'' None 3, ManyHelpMsgs [(''usage'', 4)],
         AppendMsg None]) = Some (2, 4, 2)"
    by (simp add: example_regexps_def example_window_def newUnsentPM_def newRecvdMsg_def
        parseMsgIntoElements_def parseMsgLine_def parseLine_def splitEmbeds_def splitURLs_def
        splitMentions_def split_el_def slice_def appendMsg_def markAllRead_def unreadCount_def
        Let_def text_el_def url_el_def mention_el_def)
  from v m u regexps_ok_example
    chat_window_unread_invariant [OF m u, of example_regexps
      "[NewUnsentPM ''hello'' 1, NewRecvdMsg ''alice'' ''hi bob'' None 2, MarkAllRead,
        NewRecvdMsg ''alice'' ''see http://x now'' None 3, ManyHelpMsgs [(''usage'', 4)],
        AppendMsg None]"]
  show ?thesis
    by blast
qed

section \<open>Properties of the client RPC interface\<close>

text \<open>
  C7, as the declaration has it: the response of \<open>Version\<close> is the message
  \<open>VersionResponse\<close>, whose fields are exactly \<open>app_version\<close>, \<open>go_runtime\<close> and
  \<open>app_name\<close>, in this order.
\<close>

theorem VersionResponse_fields:
  "map field_name VersionResponse = [''app_version'', ''go_runtime'', ''app_name''] \<and>
   (''Version'', ''VersionRequest'', ''VersionResponse'') \<in> set VersionService"
  by (simp add: VersionResponse_def VersionService_def)

text \<open>The message has no field named \<open>runtime\<close>: its second field is \<open>go_runtime\<close>.\<close>

theorem VersionResponse_runtime_counterexample:
  "map field_name VersionResponse \<noteq> [''app_version'', ''runtime'', ''app_name'']"
  by (simp add: VersionResponse_def)

text \<open>
  C2: the interval of a keepalive stream is at least one second: a request below 1000
  milliseconds gets heartbeats one second apart, a request of 1000 or more gets them at
  the requested interval.
\<close>

theorem keepalive_interval_clamped:
  "1000 \<le> keepalive_interval req \<and>
   (interval req < 1000 \<longrightarrow> keepalive_interval req = 1000) \<and>
   (1000 \<le> interval req \<longrightarrow> keepalive_interval req = interval req) \<and>
   heartbeat_time req t0 (Suc k) - heartbeat_time req t0 k = keepalive_interval req"
  by (simp add: keepalive_interval_def heartbeat_time_def algebra_simps)

theorem keepalive_interval_clamped_witness:
  "keepalive_interval \<lparr>interval = 250\<rparr> = 1000 \<and>
   keepalive_interval \<lparr>interval = 5000\<rparr> = 5000 \<and>
   heartbeat_time \<lparr>interval = 250\<rparr> 0 (Suc 0) - heartbeat_time \<lparr>interval = 250\<rparr> 0 0 = 1000"
  using keepalive_interval_clamped [of "\<lparr>interval = 250\<rparr>" 0 0]
    keepalive_interval_clamped [of "\<lparr>interval = 5000\<rparr>" 0 0]
  by simp

text \<open>
  C3: a group message is accepted exactly when its generation is the receiver's; one of
  a lower generation is dropped, and one of a higher generation is not accepted and a
  metadata fetch is requested from the admin.
\<close>

theorem generation_gate:
  "(accepted (recv_gc_message meta m) \<longleftrightarrow> gm_generation m = gc_generation meta) \<and>
   (gm_generation m < gc_generation meta \<longrightarrow>
      recv_gc_message meta m = \<lparr>accepted = False, metadata_fetch = None\<rparr>) \<and>
   (gc_generation meta < gm_generation m \<longrightarrow>
      recv_gc_message meta m = \<lparr>accepted = False, metadata_fetch = Some (gc_admin meta)\<rparr>)"
  by (auto simp: recv_gc_message_def)

theorem generation_gate_witness:
  "recv_gc_message \<lparr>gc_id = [7], gc_admin = [1], gc_members = [[1], [2]], gc_generation = 4\<rparr>
      \<lparr>gm_id = [7], gm_generation = 3, gm_message = ''hi'', gm_mode = MESSAGE_MODE_NORMAL\<rparr>
     = \<lparr>accepted = False, metadata_fetch = None\<rparr> \<and>
   recv_gc_message \<lparr>gc_id = [7], gc_admin = [1], gc_members = [[1], [2]], gc_generation = 3\<rparr>
      \<lparr>gm_id = [7], gm_generation = 4, gm_message = ''hi'', gm_mode = MESSAGE_MODE_NORMAL\<rparr>
     = \<lparr>accepted = False, metadata_fetch = Some [1]\<rparr> \<and>
   accepted (recv_gc_message \<lparr>gc_id = [7], gc_admin = [1], gc_members = [[1], [2]], gc_generation = 4\<rparr>
      \<lparr>gm_id = [7], gm_generation = 4, gm_message = ''hi'', gm_mode = MESSAGE_MODE_NORMAL\<rparr>)"
  using generation_gate [of "\<lparr>gc_id = [7], gc_admin = [1], gc_members = [[1], [2]], gc_generation = 4\<rparr>"
      "\<lparr>gm_id = [7], gm_generation = 3, gm_message = ''hi'', gm_mode = MESSAGE_MODE_NORMAL\<rparr>"]
    generation_gate [of "\<lparr>gc_id = [7], gc_admin = [1], gc_members = [[1], [2]], gc_generation = 3\<rparr>"
      "\<lparr>gm_id = [7], gm_generation = 4, gm_message = ''hi'', gm_mode = MESSAGE_MODE_NORMAL\<rparr>"]
    generation_gate [of "\<lparr>gc_id = [7], gc_admin = [1], gc_members = [[1], [2]], gc_generation = 4\<rparr>"
      "\<lparr>gm_id = [7], gm_generation = 4, gm_message = ''hi'', gm_mode = MESSAGE_MODE_NORMAL\<rparr>"]
  by simp

subsection \<open>Acks\<close>

text \<open>A new stream is marked up to its high-water mark, and acks and compaction keep it so.\<close>

lemma marked_upto_new_stream: "marked_upto new_stream"
  by (simp add: marked_upto_def new_stream_def)

lemma marked_upto_ack: "marked_upto st \<Longrightarrow> marked_upto (ack req st)"
  by (auto simp: marked_upto_def ack_def list_all_iff max_def)

lemma marked_upto_compact: "marked_upto st \<Longrightarrow> marked_upto (compact st)"
  by (auto simp: marked_upto_def compact_def list_all_iff)

lemma marked_upto_emit:
  assumes "marked_upto st" and "acked_upto st \<le> last_seq st" and "last_seq st \<noteq> - 1"
  shows "marked_upto (emit p st)"
proof -
  from assms(3) have "\<not> last_seq st + 1 \<le> last_seq st"
    by (simp add: inc_less_eq_self_iff_eq)
  with assms(2) have "\<not> last_seq st + 1 \<le> acked_upto st"
    by auto
  with assms(1) show ?thesis
    by (simp add: marked_upto_def emit_def)
qed






end
